theory Spec2Isabelle
  imports Main "HOL-Library.Word"
begin

unbundle bit_operations_syntax

section \<open>Bytes and integers\<close>

text \<open>
  Python \<open>bytes\<close> are lists of 8-bit words; Python integers are unbounded, so they
  are \<open>int\<close> where they may be negative (the parameters) and \<open>nat\<close> where they
  cannot (byte-string values, counters).
\<close>

type_synonym byte = "8 word"
type_synonym u32 = "32 word"

text \<open>\<open>int.from_bytes(bs, "big", signed=False)\<close>.\<close>

definition from_bytes_big :: "byte list \<Rightarrow> nat" where
  "from_bytes_big bs = foldl (\<lambda>acc b. acc * 256 + unat b) 0 bs"

text \<open>The exceptions the modelled functions can raise.\<close>

datatype py_error =
    ValueError string
  | ZeroDivisionError
  | OverflowError
  | UnicodeEncodeError
  | IndexError

text \<open>
  \<open>ctr.to_bytes(2, "big")\<close>: two bytes, most significant first; Python raises
  OverflowError when the integer does not fit.
\<close>

definition to_bytes2_big :: "nat \<Rightarrow> py_error + byte list" where
  "to_bytes2_big n =
     (if n < 65536 then Inr [of_nat (n div 256), of_nat (n mod 256)]
      else Inl OverflowError)"

section \<open>SHA-256 (\<open>hashlib.sha256\<close>, FIPS 180-4)\<close>

text \<open>
  The round constants, eight to a row as the standard prints them; row \<open>r\<close> holds
  the constants of rounds \<open>8 * r\<close> to \<open>8 * r + 7\<close>.
\<close>

definition K256 :: "u32 list" where
  "K256 = concat [
    [0x428a2f98, 0x71374491, 0xb5c0fbcf, 0xe9b5dba5, 0x3956c25b, 0x59f111f1, 0x923f82a4, 0xab1c5ed5],
    [0xd807aa98, 0x12835b01, 0x243185be, 0x550c7dc3, 0x72be5d74, 0x80deb1fe, 0x9bdc06a7, 0xc19bf174],
    [0xe49b69c1, 0xefbe4786, 0x0fc19dc6, 0x240ca1cc, 0x2de92c6f, 0x4a7484aa, 0x5cb0a9dc, 0x76f988da],
    [0x983e5152, 0xa831c66d, 0xb00327c8, 0xbf597fc7, 0xc6e00bf3, 0xd5a79147, 0x06ca6351, 0x14292967],
    [0x27b70a85, 0x2e1b2138, 0x4d2c6dfc, 0x53380d13, 0x650a7354, 0x766a0abb, 0x81c2c92e, 0x92722c85],
    [0xa2bfe8a1, 0xa81a664b, 0xc24b8b70, 0xc76c51a3, 0xd192e819, 0xd6990624, 0xf40e3585, 0x106aa070],
    [0x19a4c116, 0x1e376c08, 0x2748774c, 0x34b0bcb5, 0x391c0cb3, 0x4ed8aa4a, 0x5b9cca4f, 0x682e6ff3],
    [0x748f82ee, 0x78a5636f, 0x84c87814, 0x8cc70208, 0x90befffa, 0xa4506ceb, 0xbef9a3f7, 0xc67178f2]]"

type_synonym sha_state = "u32 \<times> u32 \<times> u32 \<times> u32 \<times> u32 \<times> u32 \<times> u32 \<times> u32"

definition H256 :: sha_state where
  "H256 = (0x6a09e667, 0xbb67ae85, 0x3c6ef372, 0xa54ff53a,
           0x510e527f, 0x9b05688c, 0x1f83d9ab, 0x5be0cd19)"

definition ch :: "u32 \<Rightarrow> u32 \<Rightarrow> u32 \<Rightarrow> u32" where
  "ch x y z = (x AND y) XOR (NOT x AND z)"

definition maj :: "u32 \<Rightarrow> u32 \<Rightarrow> u32 \<Rightarrow> u32" where
  "maj x y z = (x AND y) XOR (x AND z) XOR (y AND z)"

definition bsig0 :: "u32 \<Rightarrow> u32" where
  "bsig0 x = word_rotr 2 x XOR word_rotr 13 x XOR word_rotr 22 x"

definition bsig1 :: "u32 \<Rightarrow> u32" where
  "bsig1 x = word_rotr 6 x XOR word_rotr 11 x XOR word_rotr 25 x"

definition ssig0 :: "u32 \<Rightarrow> u32" where
  "ssig0 x = word_rotr 7 x XOR word_rotr 18 x XOR drop_bit 3 x"

definition ssig1 :: "u32 \<Rightarrow> u32" where
  "ssig1 x = word_rotr 17 x XOR word_rotr 19 x XOR drop_bit 10 x"

text \<open>Four bytes, most significant first, as one 32-bit word, and back.\<close>

definition be32 :: "byte \<Rightarrow> byte \<Rightarrow> byte \<Rightarrow> byte \<Rightarrow> u32" where
  "be32 b0 b1 b2 b3 =
     push_bit 24 (ucast b0) OR push_bit 16 (ucast b1) OR push_bit 8 (ucast b2) OR ucast b3"

definition be32_bytes :: "u32 \<Rightarrow> byte list" where
  "be32_bytes w = [ucast (drop_bit 24 w), ucast (drop_bit 16 w), ucast (drop_bit 8 w), ucast w]"

definition be64_bytes :: "64 word \<Rightarrow> byte list" where
  "be64_bytes w = map (\<lambda>i. ucast (drop_bit (8 * (7 - i)) w)) [0..<8]"

fun words_of_bytes :: "byte list \<Rightarrow> u32 list" where
  "words_of_bytes (b0 # b1 # b2 # b3 # rest) = be32 b0 b1 b2 b3 # words_of_bytes rest"
| "words_of_bytes _ = []"

text \<open>
  Padding: a single 1 bit, zeros up to 56 modulo 64 bytes, then the message length in
  bits as a 64-bit big-endian integer.
\<close>

definition sha_pad :: "byte list \<Rightarrow> byte list" where
  "sha_pad m =
     m @ [0x80] @ replicate ((119 - length m mod 64) mod 64) 0
       @ be64_bytes (of_nat (8 * length m))"

text \<open>The message schedule: sixteen words of the block, extended to sixty-four.\<close>

fun extend_schedule :: "nat \<Rightarrow> u32 list \<Rightarrow> u32 list" where
  "extend_schedule 0 ws = ws"
| "extend_schedule (Suc k) ws =
     extend_schedule k
       (ws @ [ssig1 (ws ! (length ws - 2)) + ws ! (length ws - 7)
              + ssig0 (ws ! (length ws - 15)) + ws ! (length ws - 16)])"

definition sha_round :: "sha_state \<Rightarrow> u32 \<times> u32 \<Rightarrow> sha_state" where
  "sha_round s kw =
     (case s of (a, b, c, d, e, f, g, h) \<Rightarrow>
        let t1 = h + bsig1 e + ch e f g + fst kw + snd kw;
            t2 = bsig0 a + maj a b c
        in (t1 + t2, a, b, c, d + t1, e, f, g))"

definition sha_add :: "sha_state \<Rightarrow> sha_state \<Rightarrow> sha_state" where
  "sha_add s t =
     (case s of (a, b, c, d, e, f, g, h) \<Rightarrow>
      case t of (a', b', c', d', e', f', g', h') \<Rightarrow>
        (a + a', b + b', c + c', d + d', e + e', f + f', g + g', h + h'))"

definition sha_compress :: "sha_state \<Rightarrow> byte list \<Rightarrow> sha_state" where
  "sha_compress s blk =
     sha_add s (foldl sha_round s (zip K256 (extend_schedule 48 (words_of_bytes blk))))"

text \<open>The padded message is consumed in blocks of 64 bytes.\<close>

fun sha_blocks :: "nat \<Rightarrow> sha_state \<Rightarrow> byte list \<Rightarrow> sha_state" where
  "sha_blocks 0 s m = s"
| "sha_blocks (Suc k) s m = sha_blocks k (sha_compress s (take 64 m)) (drop 64 m)"

definition sha_digest_bytes :: "sha_state \<Rightarrow> byte list" where
  "sha_digest_bytes s =
     (case s of (a, b, c, d, e, f, g, h) \<Rightarrow>
        be32_bytes a @ be32_bytes b @ be32_bytes c @ be32_bytes d
        @ be32_bytes e @ be32_bytes f @ be32_bytes g @ be32_bytes h)"

definition sha256 :: "byte list \<Rightarrow> byte list" where
  "sha256 m =
     (let p = sha_pad m in sha_digest_bytes (sha_blocks (length p div 64) H256 p))"

section \<open>The index stream expander\<close>

text \<open>
  The inner \<open>for\<close> loop of \<open>_bytes_to_indices\<close>: the pool is read in steps of four
  bytes; a chunk shorter than four bytes ends the scan, a complete one is appended to
  \<open>out\<close> reduced modulo \<open>vocab_size\<close>, and the scan ends when \<open>needed\<close> reaches 0.
  The result is the pair \<open>(out, needed)\<close> after the loop.
\<close>

fun scan_pool :: "byte list \<Rightarrow> int \<Rightarrow> int \<Rightarrow> int list \<Rightarrow> py_error + (int list \<times> int)" where
  "scan_pool (b0 # b1 # b2 # b3 # rest) vocab_size needed out =
     (if vocab_size = 0 then Inl ZeroDivisionError
      else
        let val = int (from_bytes_big [b0, b1, b2, b3]);
            out' = out @ [val mod vocab_size];
            needed' = needed - 1
        in if needed' = 0 then Inr (out', needed')
           else scan_pool rest vocab_size needed' out')"
| "scan_pool _ vocab_size needed out = Inr (out, needed)"

text \<open>
  The \<open>while needed > 0\<close> loop, with the state \<open>(pool, ctr, needed, out)\<close>. When the
  scan leaves \<open>needed > 0\<close> the counter is incremented and the pool replaced by the hash
  of the pool followed by the counter in two bytes; \<open>to_bytes\<close> raises once the counter
  no longer fits. Every round that recurses increments the counter, which is how the
  loop is shown to terminate.
\<close>

function bytes_to_indices_loop ::
  "byte list \<Rightarrow> nat \<Rightarrow> int \<Rightarrow> int \<Rightarrow> int list \<Rightarrow> py_error + int list" where
  "bytes_to_indices_loop pool ctr vocab_size needed out =
     (if needed > 0 then
        (case scan_pool pool vocab_size needed out of
           Inl e \<Rightarrow> Inl e
         | Inr (out', needed') \<Rightarrow>
             if needed' > 0 then
               (case to_bytes2_big (ctr + 1) of
                  Inl e \<Rightarrow> Inl e
                | Inr cb \<Rightarrow>
                    bytes_to_indices_loop (sha256 (pool @ cb)) (ctr + 1) vocab_size needed' out')
             else bytes_to_indices_loop pool ctr vocab_size needed' out')
      else Inr out)"
  by pat_completeness auto
termination
  by (relation "measure (\<lambda>(pool, ctr, vocab_size, needed, out).
        (if needed > 0 then 1 else 0) + 2 * (65536 - ctr))")
     (auto simp: to_bytes2_big_def split: if_splits)

definition bytes_to_indices :: "byte list \<Rightarrow> int \<Rightarrow> int \<Rightarrow> py_error + int list" where
  "bytes_to_indices b vocab_size n = bytes_to_indices_loop b 0 vocab_size n []"

text \<open>
  The specification's account of the expander, written independently of the loops above.
  A complete chunk is four consecutive bytes at an offset that is a multiple of four; its
  value is the big-endian number they spell.
\<close>

definition chunk_value :: "byte list \<Rightarrow> nat \<Rightarrow> nat" where
  "chunk_value pool i =
     unat (pool ! (4 * i)) * 2 ^ 24 + unat (pool ! (4 * i + 1)) * 2 ^ 16
     + unat (pool ! (4 * i + 2)) * 2 ^ 8 + unat (pool ! (4 * i + 3))"

definition chunk_values :: "byte list \<Rightarrow> nat list" where
  "chunk_values pool = map (chunk_value pool) [0..<length pool div 4]"

definition be16 :: "nat \<Rightarrow> byte list" where
  "be16 c = [of_nat (c div 256), of_nat (c mod 256)]"

text \<open>
  \<open>pool_seq seed c k\<close> is the pool after \<open>k\<close> extensions when the counter stood at
  \<open>c\<close> for the pool \<open>seed\<close>: each extension hashes the current pool followed by the
  next counter value.
\<close>

fun pool_seq :: "byte list \<Rightarrow> nat \<Rightarrow> nat \<Rightarrow> byte list" where
  "pool_seq seed c 0 = seed"
| "pool_seq seed c (Suc k) = sha256 (pool_seq seed c k @ be16 (c + Suc k))"

definition pool_indices :: "int \<Rightarrow> byte list \<Rightarrow> int list" where
  "pool_indices modulus pool = map (\<lambda>v. int v mod modulus) (chunk_values pool)"

definition index_stream :: "byte list \<Rightarrow> nat \<Rightarrow> int \<Rightarrow> nat \<Rightarrow> int list" where
  "index_stream seed c modulus k =
     concat (map (\<lambda>j. pool_indices modulus (pool_seq seed c j)) [0..<Suc k])"

text \<open>
  The number of indices the expander can deliver from a seed: the complete chunks of the
  seed and eight more for each value the two-byte counter can take.
\<close>

definition capacity :: "byte list \<Rightarrow> int" where
  "capacity seed = int (length seed div 4) + 8 * 65535"

section \<open>The checksum\<close>

text \<open>
  Python strings are sequences of Unicode code points; a code point is a natural number
  below \<open>0x110000\<close>.
\<close>

type_synonym ustr = "nat list"

text \<open>\<open>string.digits + string.ascii_uppercase\<close>.\<close>

definition chars :: ustr where
  "chars = map of_char ''0123456789ABCDEFGHIJKLMNOPQRSTUVWXYZ''"

text \<open>
  The loop \<open>for _ in range(length)\<close> of \<open>_checksum_base36\<close> with the state
  \<open>(num, out)\<close>; \<open>range\<close> of a negative number is empty.
\<close>

fun checksum_loop :: "nat \<Rightarrow> nat \<Rightarrow> ustr \<Rightarrow> ustr" where
  "checksum_loop 0 num out = out"
| "checksum_loop (Suc k) num out = checksum_loop k (num div 36) (chars ! (num mod 36) # out)"

definition checksum_base36 :: "byte list \<Rightarrow> int \<Rightarrow> ustr" where
  "checksum_base36 b len = checksum_loop (nat len) (from_bytes_big (sha256 b)) []"

text \<open>The digit of weight \<open>36 ^ i\<close> of a number, as the specification describes it.\<close>

definition base36_digit :: "nat \<Rightarrow> nat \<Rightarrow> nat" where
  "base36_digit num i = (num div 36 ^ i) mod 36"

definition be_uint :: "byte list \<Rightarrow> nat" where
  "be_uint bs = (\<Sum>i<length bs. unat (bs ! i) * 256 ^ (length bs - 1 - i))"

section \<open>Strings: whitespace, splitting, joining, UTF-8\<close>

text \<open>
  The code points for which \<open>str.isspace\<close> holds, which are the ones \<open>str.strip()\<close>
  and \<open>str.split()\<close> treat as whitespace.
\<close>

definition py_isspace :: "nat \<Rightarrow> bool" where
  "py_isspace c \<longleftrightarrow>
     (0x9 \<le> c \<and> c \<le> 0xD) \<or> (0x1C \<le> c \<and> c \<le> 0x20) \<or> c = 0x85 \<or> c = 0xA0
     \<or> c = 0x1680 \<or> (0x2000 \<le> c \<and> c \<le> 0x200A) \<or> c = 0x2028 \<or> c = 0x2029
     \<or> c = 0x202F \<or> c = 0x205F \<or> c = 0x3000"

definition strip :: "ustr \<Rightarrow> ustr" where
  "strip s = rev (dropWhile py_isspace (rev (dropWhile py_isspace s)))"

text \<open>
  \<open>str.split()\<close> without arguments: the maximal runs of non-whitespace, in order;
  \<open>cur\<close> is the word being read.
\<close>

fun split_acc :: "ustr \<Rightarrow> ustr \<Rightarrow> ustr list" where
  "split_acc cur [] = (if cur = [] then [] else [cur])"
| "split_acc cur (c # cs) =
     (if py_isspace c then (if cur = [] then split_acc [] cs else cur # split_acc [] cs)
      else split_acc (cur @ [c]) cs)"

definition split_ws :: "ustr \<Rightarrow> ustr list" where
  "split_ws s = split_acc [] s"

text \<open>\<open>sep.join(parts)\<close>.\<close>

fun join :: "ustr \<Rightarrow> ustr list \<Rightarrow> ustr" where
  "join sep [] = []"
| "join sep [w] = w"
| "join sep (w # ws) = w @ sep @ join sep ws"

text \<open>
  \<open>str.encode("utf-8")\<close>: one to four bytes for each code point; a surrogate code
  point cannot be encoded and raises UnicodeEncodeError. Code points from \<open>0x110000\<close>
  on do not occur in a Python string; the model rejects them as well.
\<close>

definition utf8_char :: "nat \<Rightarrow> py_error + byte list" where
  "utf8_char c =
     (if c < 0x80 then Inr [of_nat c]
      else if c < 0x800 then Inr [of_nat (0xC0 + c div 64), of_nat (0x80 + c mod 64)]
      else if c < 0x10000 then
        (if 0xD800 \<le> c \<and> c \<le> 0xDFFF then Inl UnicodeEncodeError
         else Inr [of_nat (0xE0 + c div 4096), of_nat (0x80 + c div 64 mod 64),
                   of_nat (0x80 + c mod 64)])
      else if c < 0x110000 then
        Inr [of_nat (0xF0 + c div 262144), of_nat (0x80 + c div 4096 mod 64),
             of_nat (0x80 + c div 64 mod 64), of_nat (0x80 + c mod 64)]
      else Inl UnicodeEncodeError)"

fun utf8_encode :: "ustr \<Rightarrow> py_error + byte list" where
  "utf8_encode [] = Inr []"
| "utf8_encode (c # cs) =
     (case utf8_char c of
        Inl e \<Rightarrow> Inl e
      | Inr bs \<Rightarrow> (case utf8_encode cs of Inl e \<Rightarrow> Inl e | Inr rest \<Rightarrow> Inr (bs @ rest)))"

section \<open>The normalizer\<close>

text \<open>
  The case mappings and the normalization forms come from the Unicode Character
  Database of the Python runtime, which is not part of the repository: they are a
  parameter. \<open>str_lower\<close> is \<open>str.lower\<close>, \<open>nfkc\<close> is
  \<open>unicodedata.normalize("NFKC", \<cdot>)\<close>; \<open>str_casefold\<close> is \<open>str.casefold\<close>, which the
  source does not call and which only the specification's wording refers to.
\<close>

record unicode_tables =
  str_lower :: "ustr \<Rightarrow> ustr"
  str_casefold :: "ustr \<Rightarrow> ustr"
  nfkc :: "ustr \<Rightarrow> ustr"

text \<open>\<open>_normalize\<close>.\<close>

definition normalize_str :: "unicode_tables \<Rightarrow> ustr \<Rightarrow> ustr" where
  "normalize_str U s =
     (let s' = nfkc U (str_lower U (strip s)) in join [0x20] (split_ws s'))"

text \<open>
  The normalizer in the specification's words: strip, full case folding, NFKC, collapse
  whitespace.
\<close>

definition normalize_spec :: "unicode_tables \<Rightarrow> ustr \<Rightarrow> ustr" where
  "normalize_spec U s = join [0x20] (split_ws (nfkc U (str_casefold U (strip s))))"

text \<open>
  An excerpt of the Unicode Character Database (version 14.0) for strings over ASCII and
  the code points U+00B0 (degree sign), U+00DF (sharp s) and U+2103 (degree Celsius):
  lowercasing and case folding map A-Z to a-z, case folding maps U+00DF to "ss" while
  lowercasing keeps it, and NFKC maps U+2103 to U+00B0 followed by "C". On other code
  points the excerpt is the identity and stands for no table entry.
\<close>

definition lower_char :: "nat \<Rightarrow> nat" where
  "lower_char c = (if 0x41 \<le> c \<and> c \<le> 0x5A then c + 0x20 else c)"

definition ucd_excerpt :: unicode_tables where
  "ucd_excerpt = \<lparr>
     str_lower = map lower_char,
     str_casefold = (\<lambda>s. concat (map (\<lambda>c. if c = 0xDF then [0x73, 0x73] else [lower_char c]) s)),
     nfkc = (\<lambda>s. concat (map (\<lambda>c. if c = 0x2103 then [0xB0, 0x43] else [c]) s)) \<rparr>"

section \<open>The keyed digest\<close>

text \<open>
  \<open>hmac.new(key, msg, hashlib.sha256).digest()\<close>: a key longer than the block of 64
  bytes is hashed first, the key is padded with zeros to the block size, and the
  message is hashed between the inner and the outer padded key.
\<close>

definition hmac_new_sha256 :: "byte list \<Rightarrow> byte list \<Rightarrow> byte list" where
  "hmac_new_sha256 key msg =
     (let k = (if length key > 64 then sha256 key else key);
          kp = k @ replicate (64 - length k) 0
      in sha256 (map (\<lambda>b. b XOR 0x5C) kp @ sha256 (map (\<lambda>b. b XOR 0x36) kp @ msg)))"

text \<open>\<open>_hmac_sha256\<close>.\<close>

definition hmac_sha256 :: "unicode_tables \<Rightarrow> byte list \<Rightarrow> ustr \<Rightarrow> py_error + byte list" where
  "hmac_sha256 U key msg =
     (case utf8_encode (normalize_str U msg) of
        Inl e \<Rightarrow> Inl e
      | Inr bs \<Rightarrow> Inr (hmac_new_sha256 key bs))"

section \<open>The assembler\<close>

text \<open>
  \<open>wordlist[i]\<close>: a negative index counts from the end, an index out of range raises
  IndexError.
\<close>

definition list_get :: "'a list \<Rightarrow> int \<Rightarrow> py_error + 'a" where
  "list_get xs i =
     (if i < - int (length xs) \<or> int (length xs) \<le> i then Inl IndexError
      else if i < 0 then Inr (xs ! nat (int (length xs) + i))
      else Inr (xs ! nat i))"

text \<open>\<open>[wordlist[i] for i in idxs]\<close>.\<close>

fun lookup_words :: "ustr list \<Rightarrow> int list \<Rightarrow> py_error + ustr list" where
  "lookup_words wordlist [] = Inr []"
| "lookup_words wordlist (i # idxs) =
     (case list_get wordlist i of
        Inl e \<Rightarrow> Inl e
      | Inr w \<Rightarrow>
          (case lookup_words wordlist idxs of Inl e \<Rightarrow> Inl e | Inr ws \<Rightarrow> Inr (w # ws)))"

text \<open>
  \<open>friendly_id\<close>. The check of \<open>n_words\<close> comes first; then the salt is encoded, the
  input normalized, encoded and hashed, the indices drawn and looked up, the checksum
  computed, and the tokens joined.
\<close>

definition friendly_id ::
  "unicode_tables \<Rightarrow> ustr \<Rightarrow> ustr \<Rightarrow> ustr list \<Rightarrow> int \<Rightarrow> int \<Rightarrow> ustr \<Rightarrow> py_error + ustr" where
  "friendly_id U user_input secret_salt wordlist n_words checksum_len sep =
     (if n_words < 2 then Inl (ValueError ''Use at least 2 words.'')
      else
        (case utf8_encode secret_salt of
           Inl e \<Rightarrow> Inl e
         | Inr key \<Rightarrow>
        (case hmac_sha256 U key user_input of
           Inl e \<Rightarrow> Inl e
         | Inr digest \<Rightarrow>
        (case bytes_to_indices digest (int (length wordlist)) n_words of
           Inl e \<Rightarrow> Inl e
         | Inr idxs \<Rightarrow>
        (case lookup_words wordlist idxs of
           Inl e \<Rightarrow> Inl e
         | Inr words \<Rightarrow>
             (let check = checksum_base36 digest checksum_len
              in Inr (join sep (if checksum_len > 0 then words @ [check] else words))))))))"

section \<open>Properties of SHA-256 and of the expander\<close>

lemma length_be32_bytes: "length (be32_bytes w) = 4"
  by (simp add: be32_bytes_def)

lemma length_sha256: "length (sha256 m) = 32"
  by (simp add: sha256_def sha_digest_bytes_def Let_def length_be32_bytes split: prod.splits)

lemma from_bytes_big4:
  "from_bytes_big [b0, b1, b2, b3] =
     unat b0 * 2 ^ 24 + unat b1 * 2 ^ 16 + unat b2 * 2 ^ 8 + unat b3"
  by (simp add: from_bytes_big_def)

lemma chunk_value_shift:
  "chunk_value (b0 # b1 # b2 # b3 # rest) (Suc i) = chunk_value rest i"
  by (simp add: chunk_value_def ac_simps)

lemma div4_Cons4: "length (b0 # b1 # b2 # b3 # rest) div 4 = Suc (length rest div 4)"
  by simp

lemma chunk_values_Cons4:
  "chunk_values (b0 # b1 # b2 # b3 # rest) = from_bytes_big [b0, b1, b2, b3] # chunk_values rest"
proof -
  have "[0..<Suc (length rest div 4)] = 0 # map Suc [0..<length rest div 4]"
    by (simp add: upt_conv_Cons map_Suc_upt del: upt_Suc)
  then have "chunk_values (b0 # b1 # b2 # b3 # rest) =
      chunk_value (b0 # b1 # b2 # b3 # rest) 0
        # map (\<lambda>i. chunk_value (b0 # b1 # b2 # b3 # rest) (Suc i)) [0..<length rest div 4]"
    unfolding chunk_values_def div4_Cons4 by (simp add: comp_def del: upt_Suc)
  also have "chunk_value (b0 # b1 # b2 # b3 # rest) 0 = from_bytes_big [b0, b1, b2, b3]"
    by (simp add: chunk_value_def from_bytes_big4)
  finally show ?thesis
    by (simp add: chunk_value_shift chunk_values_def)
qed

lemma chunk_values_short: "length pool < 4 \<Longrightarrow> chunk_values pool = []"
  by (simp add: chunk_values_def)

lemma length_chunk_values: "length (chunk_values pool) = length pool div 4"
  by (simp add: chunk_values_def)

lemma length_pool_indices: "length (pool_indices m pool) = length pool div 4"
  by (simp add: pool_indices_def length_chunk_values)

lemma pool_indices_Cons4:
  "pool_indices m (b0 # b1 # b2 # b3 # rest) =
     (int (from_bytes_big [b0, b1, b2, b3]) mod m) # pool_indices m rest"
  by (simp add: pool_indices_def chunk_values_Cons4)

lemma pool_indices_short: "length pool < 4 \<Longrightarrow> pool_indices m pool = []"
  by (simp add: pool_indices_def chunk_values_short)

lemma scan_pool_eq:
  "m \<noteq> 0 \<Longrightarrow> 0 < needed \<Longrightarrow>
   scan_pool pool m needed out =
     Inr (out @ take (nat needed) (pool_indices m pool),
          if needed \<le> int (length pool div 4) then 0 else needed - int (length pool div 4))"
proof (induction pool m needed out rule: scan_pool.induct)
  case (1 b0 b1 b2 b3 rest vocab_size needed out)
  show ?case
  proof (cases "needed - 1 = 0")
    case True
    then have "needed = 1" by simp
    then show ?thesis using 1 by (simp add: pool_indices_Cons4)
  next
    case False
    with 1 have pos: "0 < needed - 1" by simp
    have tk: "take (nat needed) (pool_indices vocab_size (b0 # b1 # b2 # b3 # rest)) =
        (int (from_bytes_big [b0, b1, b2, b3]) mod vocab_size) # take (nat (needed - 1)) (pool_indices vocab_size rest)"
      using pos by (simp add: pool_indices_Cons4 take_Cons' nat_diff_distrib)
    have "scan_pool (b0 # b1 # b2 # b3 # rest) vocab_size needed out =
          scan_pool rest vocab_size (needed - 1)
            (out @ [int (from_bytes_big [b0, b1, b2, b3]) mod vocab_size])"
      using False 1(2) by (simp add: Let_def)
    also have "\<dots> = Inr ((out @ [int (from_bytes_big [b0, b1, b2, b3]) mod vocab_size])
          @ take (nat (needed - 1)) (pool_indices vocab_size rest),
          if needed - 1 \<le> int (length rest div 4) then 0 else needed - 1 - int (length rest div 4))"
      using 1(1)[OF 1(2) refl refl refl False 1(2) pos] .
    finally show ?thesis using tk pos by (simp only: div4_Cons4) auto
  qed
qed (simp_all add: pool_indices_short)


declare bytes_to_indices_loop.simps [simp del]

lemma to_bytes2_big_be16: "n < 65536 \<Longrightarrow> to_bytes2_big n = Inr (be16 n)"
  by (simp add: to_bytes2_big_def be16_def)

lemma pool_seq_shift:
  "pool_seq (sha256 (p @ be16 (Suc c))) (Suc c) k = pool_seq p c (Suc k)"
  by (induction k) simp_all

lemma index_stream_0: "index_stream p c m 0 = pool_indices m p"
  by (simp add: index_stream_def)

lemma index_stream_Suc:
  "index_stream p c m (Suc k) =
     pool_indices m p @ index_stream (sha256 (p @ be16 (Suc c))) (Suc c) m k"
proof -
  have "[0..<Suc (Suc k)] = 0 # map Suc [0..<Suc k]"
    by (simp add: upt_conv_Cons map_Suc_upt del: upt_Suc)
  then have "index_stream p c m (Suc k) =
      pool_indices m (pool_seq p c 0)
        @ concat (map (\<lambda>j. pool_indices m (pool_seq p c (Suc j))) [0..<Suc k])"
    unfolding index_stream_def by (simp add: comp_def del: upt_Suc pool_seq.simps)
  then show ?thesis
    by (simp add: index_stream_def pool_seq_shift del: upt_Suc pool_seq.simps(2))
qed

lemma index_stream_head: "\<exists>rest. index_stream p c m k = pool_indices m p @ rest"
  by (cases k) (simp_all add: index_stream_0 index_stream_Suc)

lemma loop_done: "\<not> 0 < needed \<Longrightarrow> bytes_to_indices_loop pool ctr m needed out = Inr out"
  by (subst bytes_to_indices_loop.simps) simp

lemma loop_fits:
  assumes "m \<noteq> 0" "0 < needed" "needed \<le> int (length pool div 4)"
  shows "bytes_to_indices_loop pool ctr m needed out =
           Inr (out @ take (nat needed) (index_stream pool ctr m k))"
proof -
  obtain rest where r: "index_stream pool ctr m k = pool_indices m pool @ rest"
    using index_stream_head by blast
  have "take (nat needed) (index_stream pool ctr m k) = take (nat needed) (pool_indices m pool)"
    using assms(3) by (simp add: r length_pool_indices)
  moreover have "bytes_to_indices_loop pool ctr m needed out =
      Inr (out @ take (nat needed) (pool_indices m pool))"
    using assms
    by (subst bytes_to_indices_loop.simps) (simp add: scan_pool_eq loop_done)
  ultimately show ?thesis by simp
qed

lemma loop_extend:
  assumes "m \<noteq> 0" "int (length pool div 4) < needed" "ctr < 65535"
  shows "bytes_to_indices_loop pool ctr m needed out =
           bytes_to_indices_loop (sha256 (pool @ be16 (Suc ctr))) (Suc ctr) m
             (needed - int (length pool div 4)) (out @ pool_indices m pool)"
proof -
  have pos: "0 < needed" using assms(2) by linarith
  have "take (nat needed) (pool_indices m pool) = pool_indices m pool"
    using assms(2) by (simp add: length_pool_indices)
  then show ?thesis
    using assms pos
    by (subst bytes_to_indices_loop.simps)
       (simp add: scan_pool_eq to_bytes2_big_be16)
qed

lemma loop_overflow_step:
  assumes "m \<noteq> 0" "int (length pool div 4) < needed" "65535 \<le> ctr"
  shows "bytes_to_indices_loop pool ctr m needed out = Inl OverflowError"
proof -
  have pos: "0 < needed" using assms(2) by linarith
  show ?thesis
    using assms pos
    by (subst bytes_to_indices_loop.simps)
       (simp add: scan_pool_eq to_bytes2_big_def)
qed

lemma loop_ok:
  "m \<noteq> 0 \<Longrightarrow> 0 < needed \<Longrightarrow> ctr + d = 65535 \<Longrightarrow>
   needed \<le> int (length pool div 4) + 8 * int d \<Longrightarrow>
   bytes_to_indices_loop pool ctr m needed out =
     Inr (out @ take (nat needed) (index_stream pool ctr m d))"
proof (induction d arbitrary: pool ctr needed out)
  case 0
  then show ?case by (simp add: loop_fits)
next
  case (Suc d)
  show ?case
  proof (cases "needed \<le> int (length pool div 4)")
    case True
    with Suc.prems show ?thesis by (simp add: loop_fits)
  next
    case False
    then have gt: "int (length pool div 4) < needed" by simp
    let ?p = "sha256 (pool @ be16 (Suc ctr))"
    let ?n = "needed - int (length pool div 4)"
    have step: "bytes_to_indices_loop pool ctr m needed out =
        bytes_to_indices_loop ?p (Suc ctr) m ?n (out @ pool_indices m pool)"
      using Suc.prems gt by (intro loop_extend) simp_all
    have "bytes_to_indices_loop ?p (Suc ctr) m ?n (out @ pool_indices m pool) =
        Inr ((out @ pool_indices m pool) @ take (nat ?n) (index_stream ?p (Suc ctr) m d))"
      using Suc.prems gt by (intro Suc.IH) (simp_all add: length_sha256)
    moreover have "take (nat needed) (index_stream pool ctr m (Suc d)) =
        pool_indices m pool @ take (nat ?n) (index_stream ?p (Suc ctr) m d)"
      using gt by (simp add: index_stream_Suc length_pool_indices nat_diff_distrib)
    ultimately show ?thesis using step by simp
  qed
qed

lemma loop_overflow:
  "m \<noteq> 0 \<Longrightarrow> ctr + d = 65535 \<Longrightarrow>
   int (length pool div 4) + 8 * int d < needed \<Longrightarrow>
   bytes_to_indices_loop pool ctr m needed out = Inl OverflowError"
proof (induction d arbitrary: pool ctr needed out)
  case 0
  then show ?case by (simp add: loop_overflow_step)
next
  case (Suc d)
  let ?p = "sha256 (pool @ be16 (Suc ctr))"
  let ?n = "needed - int (length pool div 4)"
  have gt: "int (length pool div 4) < needed" using Suc.prems by linarith
  have "bytes_to_indices_loop pool ctr m needed out =
      bytes_to_indices_loop ?p (Suc ctr) m ?n (out @ pool_indices m pool)"
    using Suc.prems gt by (intro loop_extend) simp_all
  also have "\<dots> = Inl OverflowError"
    using Suc.prems by (intro Suc.IH) (simp_all add: length_sha256)
  finally show ?case .
qed

lemma bytes_to_indices_eq:
  assumes "m \<noteq> 0" "0 < n"
  shows "bytes_to_indices seed m n =
     (if n \<le> capacity seed then Inr (take (nat n) (index_stream seed 0 m 65535))
      else Inl OverflowError)"
  using assms loop_ok [of m n 0 65535 seed "[]"] loop_overflow [of m 0 65535 seed n "[]"]
  by (simp add: bytes_to_indices_def capacity_def)

lemma length_index_stream:
  "length (index_stream p c m k) = length p div 4 + 8 * k"
  by (induction k arbitrary: p c)
     (simp_all add: index_stream_0 index_stream_Suc length_pool_indices length_sha256)

lemma index_stream_range:
  assumes "0 < m" "i \<in> set (index_stream p c m k)"
  shows "0 \<le> i \<and> i < m"
  using assms by (auto simp: index_stream_def pool_indices_def)

lemma index_stream_prefix:
  "index_stream p c m (k + j) =
     index_stream p c m k
       @ concat (map (\<lambda>i. pool_indices m (pool_seq p c i)) [Suc k..<Suc (k + j)])"
proof -
  have "[0..<Suc k + j] = [0..<Suc k] @ [Suc k..<Suc k + j]"
    by (rule upt_add_eq_append) simp
  then show ?thesis
    by (simp add: index_stream_def del: upt_Suc pool_seq.simps)
qed

lemma take_index_stream_mono:
  assumes "n \<le> length p div 4 + 8 * k" "k \<le> k'"
  shows "take n (index_stream p c m k') = take n (index_stream p c m k)"
proof -
  obtain j where "k' = k + j" using assms(2) le_Suc_ex by blast
  then show ?thesis
    using assms(1) index_stream_prefix [of p c m k j] by (simp add: length_index_stream)
qed

lemma length_take_index_stream:
  assumes "0 \<le> n" "n \<le> capacity seed"
  shows "int (length (take (nat n) (index_stream seed 0 m 65535))) = n"
proof -
  have "nat n \<le> length seed div 4 + 8 * 65535"
    using assms by (simp add: capacity_def)
  then show ?thesis using assms(1) by (simp add: length_index_stream)
qed

text \<open>
  C1 (as amended). For a modulus of at least 1 and a count of at least 1, the result of
  \<open>_bytes_to_indices\<close> is the first \<open>count\<close> values of the stream the specification
  describes: the pools are the seed and then the SHA-256 hash of the current pool
  followed by the two-byte big-endian counter 1, 2, ...; each pool contributes the
  big-endian values of its complete four-byte chunks modulo the modulus, in order, a
  trailing shorter chunk being dropped. That holds as long as the count is within the
  capacity (the chunks of the seed plus eight per counter value up to 65535), for any
  number \<open>k\<close> of extensions that suffices; beyond the capacity the counter cannot be
  written in two bytes and OverflowError is raised.
\<close>

theorem bytes_to_indices_stream:
  assumes "1 \<le> m" "1 \<le> n"
  shows "(n \<le> int (length seed div 4) + 8 * int k \<and> k \<le> 65535 \<longrightarrow>
            bytes_to_indices seed m n = Inr (take (nat n) (index_stream seed 0 m k)))
       \<and> (capacity seed < n \<longrightarrow> bytes_to_indices seed m n = Inl OverflowError)"
proof (intro conjI impI)
  assume h: "n \<le> int (length seed div 4) + 8 * int k \<and> k \<le> 65535"
  then have cap: "n \<le> capacity seed" by (simp add: capacity_def)
  have "nat n \<le> length seed div 4 + 8 * k" using h by linarith
  then have "take (nat n) (index_stream seed 0 m 65535) = take (nat n) (index_stream seed 0 m k)"
    using h by (intro take_index_stream_mono) simp_all
  then show "bytes_to_indices seed m n = Inr (take (nat n) (index_stream seed 0 m k))"
    using assms cap by (simp add: bytes_to_indices_eq)
next
  assume "capacity seed < n"
  then show "bytes_to_indices seed m n = Inl OverflowError"
    using assms by (simp add: bytes_to_indices_eq)
qed

theorem bytes_to_indices_stream_witness:
  "(1::int) \<le> 7 \<and> (1::int) \<le> 20
   \<and> bytes_to_indices [] 7 20 = Inr (take 20 (index_stream [] 0 7 3))
   \<and> bytes_to_indices [] 7 524281 = Inl OverflowError"
  using bytes_to_indices_stream [of 7 20 "[]" 3] bytes_to_indices_stream [of 7 524281 "[]" 0]
  by (simp add: capacity_def)

theorem bytes_to_indices_overflow_counterexample:
  "bytes_to_indices [] 1 524281 = Inl OverflowError"
  using loop_overflow [of 1 0 65535 "[]" 524281 "[]"]
  by (simp add: bytes_to_indices_def)

text \<open>
  C6. For a modulus of at least 1, every index in a list that \<open>_bytes_to_indices\<close>
  returns lies in \<open>[0, modulus)\<close>; and for every count from 1 up to the capacity,
  which includes the counts above 8 that force the re-hash path, it does return a list,
  of exactly \<open>count\<close> indices, all in that range.
\<close>

theorem bytes_to_indices_range:
  assumes "1 \<le> m"
  shows "(\<forall>out. bytes_to_indices seed m n = Inr out \<longrightarrow> (\<forall>i\<in>set out. 0 \<le> i \<and> i < m))
       \<and> (1 \<le> n \<and> n \<le> capacity seed \<longrightarrow>
            (\<exists>out. bytes_to_indices seed m n = Inr out \<and> int (length out) = n
                   \<and> (\<forall>i\<in>set out. 0 \<le> i \<and> i < m)))"
proof -
  have rng: "\<forall>i\<in>set (take (nat n) (index_stream seed 0 m 65535)). 0 \<le> i \<and> i < m"
  proof
    fix i
    assume "i \<in> set (take (nat n) (index_stream seed 0 m 65535))"
    then have "i \<in> set (index_stream seed 0 m 65535)" by (rule in_set_takeD)
    moreover have "0 < m" using assms by simp
    ultimately show "0 \<le> i \<and> i < m" by (intro index_stream_range)
  qed
  have a: "\<forall>out. bytes_to_indices seed m n = Inr out \<longrightarrow> (\<forall>i\<in>set out. 0 \<le> i \<and> i < m)"
  proof (cases "0 < n")
    case True
    then show ?thesis
      using assms rng by (auto simp: bytes_to_indices_eq split: if_splits)
  next
    case False
    then show ?thesis by (simp add: bytes_to_indices_def loop_done)
  qed
  have b: "1 \<le> n \<and> n \<le> capacity seed \<longrightarrow>
      (\<exists>out. bytes_to_indices seed m n = Inr out \<and> int (length out) = n
             \<and> (\<forall>i\<in>set out. 0 \<le> i \<and> i < m))"
  proof
    assume h: "1 \<le> n \<and> n \<le> capacity seed"
    then have "bytes_to_indices seed m n = Inr (take (nat n) (index_stream seed 0 m 65535))"
      using assms by (simp add: bytes_to_indices_eq)
    moreover have "int (length (take (nat n) (index_stream seed 0 m 65535))) = n"
      using h by (intro length_take_index_stream) simp_all
    ultimately show "\<exists>out. bytes_to_indices seed m n = Inr out \<and> int (length out) = n
        \<and> (\<forall>i\<in>set out. 0 \<le> i \<and> i < m)"
      using rng by blast
  qed
  from a b show ?thesis by blast
qed

theorem bytes_to_indices_range_witness:
  "(1::int) \<le> 512
   \<and> (\<exists>out. bytes_to_indices (replicate 32 0) 512 20 = Inr out \<and> int (length out) = 20
          \<and> (\<forall>i\<in>set out. 0 \<le> i \<and> i < 512))"
  using bytes_to_indices_range [of 512 "replicate 32 0" 20]
  by (simp add: capacity_def)

text \<open>
  C10. For every seed, every modulus of at least 1 and every count from 1 to 65536,
  \<open>_bytes_to_indices\<close> returns a list of exactly \<open>count\<close> indices. Every pool after the
  first is a SHA-256 digest of 32 bytes and yields 8 indices, and a scan of a 32-byte
  pool with indices still needed leaves strictly fewer needed.
\<close>

theorem bytes_to_indices_returns:
  assumes "1 \<le> m" "1 \<le> n" "n \<le> 65536"
  shows "(\<exists>out. bytes_to_indices seed m n = Inr out \<and> int (length out) = n)
       \<and> (\<forall>k. length (pool_seq seed 0 (Suc k)) = 32
              \<and> length (pool_indices m (pool_seq seed 0 (Suc k))) = 8)
       \<and> (\<forall>pool needed out. length pool = 32 \<and> 0 < needed \<longrightarrow>
            (\<exists>out' needed'. scan_pool pool m needed out = Inr (out', needed')
                           \<and> needed' < needed))"
proof (intro conjI allI impI)
  have cap: "n \<le> capacity seed" using assms(3) by (simp add: capacity_def)
  then have "bytes_to_indices seed m n = Inr (take (nat n) (index_stream seed 0 m 65535))"
    using assms by (simp add: bytes_to_indices_eq)
  moreover have "int (length (take (nat n) (index_stream seed 0 m 65535))) = n"
    using assms cap by (intro length_take_index_stream) simp_all
  ultimately show "\<exists>out. bytes_to_indices seed m n = Inr out \<and> int (length out) = n"
    by blast
next
  fix k
  show "length (pool_seq seed 0 (Suc k)) = 32"
    by (simp add: length_sha256)
  show "length (pool_indices m (pool_seq seed 0 (Suc k))) = 8"
    by (simp add: length_pool_indices length_sha256)
next
  fix pool :: "byte list" and needed :: int and out :: "int list"
  assume "length pool = 32 \<and> 0 < needed"
  then show "\<exists>out' needed'. scan_pool pool m needed out = Inr (out', needed') \<and> needed' < needed"
    using assms(1) by (simp add: scan_pool_eq)
qed

theorem bytes_to_indices_returns_witness:
  "(1::int) \<le> 7 \<and> (1::int) \<le> 20 \<and> (20::int) \<le> 65536
   \<and> (\<exists>out. bytes_to_indices [1, 2, 3, 4, 5] 7 20 = Inr out \<and> int (length out) = 20)
   \<and> (\<exists>out' needed'. scan_pool (replicate 32 0) 7 20 [] = Inr (out', needed') \<and> needed' < 20)"
proof -
  have a: "(1::int) \<le> 7" "(1::int) \<le> 20" "(20::int) \<le> 65536" by simp_all
  note r = bytes_to_indices_returns [OF a, of "[1, 2, 3, 4, 5]"]
  have h: "length (replicate 32 (0::byte)) = 32 \<and> (0::int) < 20" by simp
  have s: "\<exists>out' needed'. scan_pool (replicate 32 0) 7 20 [] = Inr (out', needed') \<and> needed' < 20"
    using r [THEN conjunct2, THEN conjunct2] h by blast
  show ?thesis using a r [THEN conjunct1] s by blast
qed

end
